theory Spec2Isabelle
  imports Complex_Main "HOL-Library.Multiset"
begin

section \<open>Route optimisation service: ant colony optimisation over a routing provider\<close>

text \<open>
  A shallow embedding of \<^verbatim>\<open>backend/app/services/route_optimizer.py\<close>.
  Python floats are modelled as mathematical reals, Python lists as HOL lists, numpy
  arrays as lists of rows with checked indexing, and every exception the source can raise
  as a value of the type \<open>error\<close>. The routing provider and the random number generator
  are parameters of the model.
\<close>

subsection \<open>Module constants\<close>

definition ACO_NUM_ANTS :: nat where "ACO_NUM_ANTS = 100"

text \<open>
  \<^verbatim>\<open>ACO_ALPHA = 1.0\<close> and \<^verbatim>\<open>ACO_BETA = 2.0\<close> are only used as exponents of
  \<^verbatim>\<open>**\<close>. Both are whole numbers, so the float power is the iterated product, and the
  constants are kept as natural numbers.
\<close>

definition ACO_ALPHA :: nat where "ACO_ALPHA = 1"
definition ACO_BETA :: nat where "ACO_BETA = 2"
definition ACO_RHO :: real where "ACO_RHO = 1 / 10"
definition ACO_Q :: real where "ACO_Q = 100"
definition ACO_ELITE_WEIGHT :: real where "ACO_ELITE_WEIGHT = 2"
definition ACO_INITIAL_PHEROMONE :: real where "ACO_INITIAL_PHEROMONE = 1 / 100"

subsection \<open>Data model\<close>







text \<open>
  The exceptions of the source: \<open>NoContainersProvided\<close> is the
  \<^verbatim>\<open>ValueError("No containers provided")\<close> of \<^verbatim>\<open>optimize_route\<close>,
  \<open>MathDomainError\<close> the \<^verbatim>\<open>ValueError\<close> of \<^verbatim>\<open>math.sqrt\<close> and
  \<^verbatim>\<open>math.asin\<close>, \<open>NotInList\<close> the \<^verbatim>\<open>ValueError\<close> of \<^verbatim>\<open>list.remove\<close>,
  \<open>EmptySequence\<close> the \<^verbatim>\<open>ValueError\<close> of \<^verbatim>\<open>min\<close> on an empty list.
\<close>

datatype error =
    NoContainersProvided
  | MathDomainError
  | NotInList
  | EmptySequence
  | IndexError
  | ZeroDivisionError

subsection \<open>The routing provider and \<^verbatim>\<open>OSRMClient\<close>\<close>










subsection \<open>Distance matrix\<close>

type_synonym matrix = "real list list"




definition matrix_set :: "matrix \<Rightarrow> nat \<Rightarrow> nat \<Rightarrow> real \<Rightarrow> matrix" where
  "matrix_set m i j v = m[i := (m ! i)[j := v]]"


text \<open>A \<^verbatim>\<open>for\<close> loop whose body may raise: the first exception ends the loop.\<close>

fun for_each :: "('a \<Rightarrow> 's \<Rightarrow> error + 's) \<Rightarrow> 'a list \<Rightarrow> 's \<Rightarrow> error + 's" where
  "for_each body [] s = Inr s"
| "for_each body (x # xs) s =
     (case body x s of Inl e \<Rightarrow> Inl e | Inr s' \<Rightarrow> for_each body xs s')"



text \<open>
  The shape invariant of an \<open>n \<times> n\<close> numpy array, and the cell that the loop body
  leaves at its own pair when it runs on the freshly allocated state.
\<close>

definition square :: "nat \<Rightarrow> matrix \<Rightarrow> bool" where
  "square n m \<longleftrightarrow> length m = n \<and> (\<forall>row \<in> set m. length row = n)"


subsection \<open>Checked access to numpy arrays\<close>

text \<open>
  Indices are natural numbers here (tours hold container indices, never negative ones), so
  numpy's wrap-around of negative indices does not arise; an index beyond the shape raises
  \<^verbatim>\<open>IndexError\<close>.
\<close>

definition matrix_get :: "matrix \<Rightarrow> nat \<Rightarrow> nat \<Rightarrow> error + real" where
  "matrix_get m i j =
     (if i < length m \<and> j < length (m ! i) then Inr (m ! i ! j) else Inl IndexError)"

text \<open>\<^verbatim>\<open>m[i][j] += v\<close>\<close>

definition matrix_add :: "matrix \<Rightarrow> nat \<Rightarrow> nat \<Rightarrow> real \<Rightarrow> error + matrix" where
  "matrix_add m i j v =
     (if i < length m \<and> j < length (m ! i) then Inr (matrix_set m i j (m ! i ! j + v))
      else Inl IndexError)"

subsection \<open>Pheromone field\<close>

definition initialize_pheromones :: "nat \<Rightarrow> matrix" where
  "initialize_pheromones n = replicate n (replicate n ACO_INITIAL_PHEROMONE)"

subsection \<open>Tour construction\<close>

text \<open>The summand \<^verbatim>\<open>tau * eta\<close> that the loop of \<^verbatim>\<open>_select_next_container\<close> appends.\<close>

definition selection_weight :: "matrix \<Rightarrow> matrix \<Rightarrow> nat \<Rightarrow> nat \<Rightarrow> error + real" where
  "selection_weight pheromones distances current_idx idx =
     (case matrix_get pheromones current_idx idx of
        Inl e \<Rightarrow> Inl e
      | Inr ph \<Rightarrow>
          (let tau = ph ^ ACO_ALPHA in
           case matrix_get distances current_idx idx of
             Inl e \<Rightarrow> Inl e
           | Inr d \<Rightarrow>
               (let eta = (if d > 0 then (1 / d) ^ ACO_BETA else 0)
                in Inr (tau * eta))))"

fun map_err :: "('a \<Rightarrow> error + 'b) \<Rightarrow> 'a list \<Rightarrow> error + 'b list" where
  "map_err f [] = Inr []"
| "map_err f (x # xs) =
     (case f x of
        Inl e \<Rightarrow> Inl e
      | Inr y \<Rightarrow> (case map_err f xs of Inl e \<Rightarrow> Inl e | Inr ys \<Rightarrow> Inr (y # ys)))"

definition selection_weights :: "matrix \<Rightarrow> matrix \<Rightarrow> nat \<Rightarrow> nat list \<Rightarrow> error + real list" where
  "selection_weights pheromones distances current_idx unvisited_indices =
     map_err (selection_weight pheromones distances current_idx) unvisited_indices"

text \<open>
  The normalisation step. \<^verbatim>\<open>1.0 / len(unvisited_indices)\<close> divides by zero on an
  empty candidate list.
\<close>

definition normalize_weights :: "real list \<Rightarrow> error + real list" where
  "normalize_weights probabilities =
     (let total = sum_list probabilities
      in if total > 0 then Inr (map (\<lambda>p. p / total) probabilities)
         else if length probabilities = 0 then Inl ZeroDivisionError
         else Inr (replicate (length probabilities) (1 / real (length probabilities))))"

definition selection_probabilities ::
  "matrix \<Rightarrow> matrix \<Rightarrow> nat \<Rightarrow> nat list \<Rightarrow> error + real list" where
  "selection_probabilities pheromones distances current_idx unvisited_indices =
     (case selection_weights pheromones distances current_idx unvisited_indices of
        Inl e \<Rightarrow> Inl e
      | Inr probabilities \<Rightarrow> normalize_weights probabilities)"

text \<open>
  \<^verbatim>\<open>random.choices(population, weights=...)[0]\<close> is a parameter of the model: from the
  state of the generator, the population and the weights it gives the chosen element and
  the next state of the generator.
\<close>

type_synonym 'g chooser = "'g \<Rightarrow> nat list \<Rightarrow> real list \<Rightarrow> nat \<times> 'g"

definition select_next_container ::
  "'g chooser \<Rightarrow> 'g \<Rightarrow> nat \<Rightarrow> nat list \<Rightarrow> matrix \<Rightarrow> matrix \<Rightarrow> error + (nat \<times> 'g)" where
  "select_next_container choices g current_idx unvisited_indices pheromones distances =
     (case selection_probabilities pheromones distances current_idx unvisited_indices of
        Inl e \<Rightarrow> Inl e
      | Inr probabilities \<Rightarrow> Inr (choices g unvisited_indices probabilities))"

text \<open>
  The \<^verbatim>\<open>while unvisited\<close> loop of \<^verbatim>\<open>_construct_ant_solution\<close>. The state is the
  generator, the current index, the unvisited list, the tour and the accumulated distance.
  \<^verbatim>\<open>unvisited.remove(next_idx)\<close> raises when the element is absent. The unvisited list
  only holds indices from 1 upwards, so \<^verbatim>\<open>next_idx - 1\<close> is never negative when the
  removal succeeds.
\<close>

function construct_loop ::
  "'g chooser \<Rightarrow> matrix \<Rightarrow> matrix \<Rightarrow> 'g \<Rightarrow> nat \<Rightarrow> nat list \<Rightarrow> nat list \<Rightarrow> real
     \<Rightarrow> error + ('g \<times> nat \<times> nat list \<times> real)" where
  "construct_loop choices pheromones distances g current_idx unvisited tour total_distance =
     (if unvisited = [] then Inr (g, current_idx, tour, total_distance)
      else
        (case select_next_container choices g current_idx unvisited pheromones distances of
           Inl e \<Rightarrow> Inl e
         | Inr (next_idx, g') \<Rightarrow>
             (case matrix_get distances current_idx next_idx of
                Inl e \<Rightarrow> Inl e
              | Inr leg \<Rightarrow>
                  (if next_idx \<in> set unvisited
                   then construct_loop choices pheromones distances g' next_idx
                          (remove1 next_idx unvisited) (tour @ [next_idx - 1])
                          (total_distance + leg)
                   else Inl NotInList))))"
  by pat_completeness auto
termination
  by (relation "measure (\<lambda>(choices, pheromones, distances, g, current_idx, unvisited, tour,
        total_distance). length unvisited)")
    (auto simp: length_remove1 intro: diff_less length_pos_if_in_set)

declare construct_loop.simps [simp del]

definition construct_ant_solution ::
  "'g chooser \<Rightarrow> 'g \<Rightarrow> matrix \<Rightarrow> matrix \<Rightarrow> nat \<Rightarrow> error + (nat list \<times> real \<times> 'g)" where
  "construct_ant_solution choices g pheromones distances num_containers =
     (case construct_loop choices pheromones distances g 0 [1..<num_containers + 1] [] 0 of
        Inl e \<Rightarrow> Inl e
      | Inr (g', current_idx, tour, total_distance) \<Rightarrow>
          (case matrix_get distances current_idx 0 of
             Inl e \<Rightarrow> Inl e
           | Inr leg \<Rightarrow> Inr (tour, total_distance + leg, g')))"

subsection \<open>Pheromone update\<close>

definition evaporate :: "matrix \<Rightarrow> matrix" where
  "evaporate pheromones = map (map (\<lambda>x. (1 - ACO_RHO) * x)) pheromones"

text \<open>
  The deposit along one tour: depot to first container, between containers, last container
  to depot. \<^verbatim>\<open>tour_indices[0]\<close> raises on an empty tour.
\<close>

definition deposit_tour :: "matrix \<Rightarrow> nat list \<Rightarrow> real \<Rightarrow> error + matrix" where
  "deposit_tour pheromones tour_indices deposit =
     (if tour_indices = [] then Inl IndexError
      else
        (case matrix_add pheromones 0 (hd tour_indices + 1) deposit of
           Inl e \<Rightarrow> Inl e
         | Inr ph1 \<Rightarrow>
             (case for_each
                     (\<lambda>i ph. matrix_add ph (tour_indices ! i + 1) (tour_indices ! (i + 1) + 1)
                        deposit)
                     [0..<length tour_indices - 1] ph1 of
                Inl e \<Rightarrow> Inl e
              | Inr ph2 \<Rightarrow> matrix_add ph2 (last tour_indices + 1) 0 deposit)))"

definition update_pheromones ::
  "matrix \<Rightarrow> (nat list \<times> real) list \<Rightarrow> nat list \<times> real \<Rightarrow> (nat list \<times> real) option
     \<Rightarrow> error + matrix" where
  "update_pheromones pheromones all_tours best_tour global_best_tour =
     (let ph0 = evaporate pheromones
      in case (if snd best_tour > 0
               then deposit_tour ph0 (fst best_tour) (ACO_Q / snd best_tour)
               else Inr ph0) of
           Inl e \<Rightarrow> Inl e
         | Inr ph1 \<Rightarrow>
             (case global_best_tour of
                None \<Rightarrow> Inr ph1
              | Some gb \<Rightarrow>
                  (if snd gb > 0
                   then deposit_tour ph1 (fst gb) (ACO_ELITE_WEIGHT * ACO_Q / snd gb)
                   else Inr ph1)))"

subsection \<open>2-opt local search\<close>

text \<open>\<^verbatim>\<open>[0] + [i + 1 for i in tour] + [0]\<close>\<close>

definition tour_path :: "nat list \<Rightarrow> nat list" where
  "tour_path tour = 0 # map (\<lambda>i. i + 1) tour @ [0]"

text \<open>
  The test \<^verbatim>\<open>new_dist < current_dist\<close> for one pair of positions. The positions come
  from the two \<^verbatim>\<open>range\<close>s of the scan, which keep \<open>i - 1\<close> and \<open>j + 1\<close> inside the path.
\<close>

definition improving :: "matrix \<Rightarrow> nat list \<Rightarrow> nat \<Rightarrow> nat \<Rightarrow> error + bool" where
  "improving distance_matrix path i j =
     (case matrix_get distance_matrix (path ! (i - 1)) (path ! i) of
        Inl e \<Rightarrow> Inl e
      | Inr a \<Rightarrow>
     (case matrix_get distance_matrix (path ! j) (path ! (j + 1)) of
        Inl e \<Rightarrow> Inl e
      | Inr b \<Rightarrow>
     (case matrix_get distance_matrix (path ! (i - 1)) (path ! j) of
        Inl e \<Rightarrow> Inl e
      | Inr c \<Rightarrow>
     (case matrix_get distance_matrix (path ! i) (path ! (j + 1)) of
        Inl e \<Rightarrow> Inl e
      | Inr d \<Rightarrow>
          (let current_dist = a + b; new_dist = c + d
           in Inr (new_dist < current_dist))))))"

text \<open>
  \<^verbatim>\<open>for i in range(1, len(path) - 2): for j in range(i + 1, len(path) - 1)\<close>: the
  pairs of one scan, in the order in which the nested loops visit them.
\<close>

definition scan_pairs :: "nat \<Rightarrow> (nat \<times> nat) list" where
  "scan_pairs len = concat (map (\<lambda>i. map (\<lambda>j. (i, j)) [i + 1..<len - 1]) [1..<len - 2])"

text \<open>
  One scan with its two \<^verbatim>\<open>break\<close>s: the first improving pair ends the scan, and a
  scan that finds none gives \<open>None\<close>.
\<close>

fun first_improving ::
  "matrix \<Rightarrow> nat list \<Rightarrow> (nat \<times> nat) list \<Rightarrow> error + (nat \<times> nat) option" where
  "first_improving distance_matrix path [] = Inr None"
| "first_improving distance_matrix path ((i, j) # pairs) =
     (case improving distance_matrix path i j of
        Inl e \<Rightarrow> Inl e
      | Inr True \<Rightarrow> Inr (Some (i, j))
      | Inr False \<Rightarrow> first_improving distance_matrix path pairs)"

text \<open>\<^verbatim>\<open>path[i:j+1] = reversed(path[i:j+1])\<close>\<close>

definition reverse_segment :: "nat list \<Rightarrow> nat \<Rightarrow> nat \<Rightarrow> nat list" where
  "reverse_segment path i j =
     take i path @ rev (take (j + 1 - i) (drop i path)) @ drop (j + 1) path"

text \<open>
  The \<^verbatim>\<open>while improved\<close> loop. It has no bound on its number of rounds, so it is a
  partial function: \<open>None\<close> is a run that never leaves the loop.
\<close>

partial_function (option) two_opt_loop :: "matrix \<Rightarrow> nat list \<Rightarrow> (error + nat list) option" where
  "two_opt_loop distance_matrix path =
     (case first_improving distance_matrix path (scan_pairs (length path)) of
        Inl e \<Rightarrow> Some (Inl e)
      | Inr None \<Rightarrow> Some (Inr path)
      | Inr (Some (i, j)) \<Rightarrow> two_opt_loop distance_matrix (reverse_segment path i j))"

text \<open>\<^verbatim>\<open>[node - 1 for node in path[1:-1]]\<close>\<close>

definition path_tour :: "nat list \<Rightarrow> nat list" where
  "path_tour path = map (\<lambda>node. node - 1) (butlast (tl path))"

definition two_opt :: "nat list \<Rightarrow> matrix \<Rightarrow> (error + nat list) option" where
  "two_opt tour distance_matrix =
     (case two_opt_loop distance_matrix (tour_path tour) of
        None \<Rightarrow> None
      | Some (Inl e) \<Rightarrow> Some (Inl e)
      | Some (Inr path) \<Rightarrow> Some (Inr (path_tour path)))"

text \<open>
  The cost of a closed path, as \<^verbatim>\<open>_create_aco_route\<close> recomputes it:
  \<^verbatim>\<open>for k in range(len(path) - 1): refined_distance += distance_matrix[path[k], path[k+1]]\<close>.
\<close>

definition path_cost :: "matrix \<Rightarrow> nat list \<Rightarrow> error + real" where
  "path_cost distance_matrix path =
     for_each
       (\<lambda>k refined_distance.
          case matrix_get distance_matrix (path ! k) (path ! (k + 1)) of
            Inl e \<Rightarrow> Inl e
          | Inr leg \<Rightarrow> Inr (refined_distance + leg))
       [0..<length path - 1] 0"

definition tour_cost :: "matrix \<Rightarrow> nat list \<Rightarrow> error + real" where
  "tour_cost distance_matrix tour = path_cost distance_matrix (tour_path tour)"

subsection \<open>Colony controller\<close>

text \<open>
  The body of \<^verbatim>\<open>for ant_id in range(ACO_NUM_ANTS)\<close>, run \<open>k\<close> more times: construct,
  refine with 2-opt, recompute the distance, append to \<^verbatim>\<open>iteration_tours\<close>. The loop
  variable is not used by the body.
\<close>

fun ants_loop ::
  "'g chooser \<Rightarrow> matrix \<Rightarrow> matrix \<Rightarrow> nat \<Rightarrow> nat \<Rightarrow> 'g \<Rightarrow> (nat list \<times> real) list
     \<Rightarrow> (error + ((nat list \<times> real) list \<times> 'g)) option" where
  "ants_loop choices pheromones distance_matrix num_containers 0 g iteration_tours =
     Some (Inr (iteration_tours, g))"
| "ants_loop choices pheromones distance_matrix num_containers (Suc k) g iteration_tours =
     (case construct_ant_solution choices g pheromones distance_matrix num_containers of
        Inl e \<Rightarrow> Some (Inl e)
      | Inr (tour, ant_distance, g') \<Rightarrow>
          (case two_opt tour distance_matrix of
             None \<Rightarrow> None
           | Some (Inl e) \<Rightarrow> Some (Inl e)
           | Some (Inr refined_tour) \<Rightarrow>
               (case tour_cost distance_matrix refined_tour of
                  Inl e \<Rightarrow> Some (Inl e)
                | Inr refined_distance \<Rightarrow>
                    ants_loop choices pheromones distance_matrix num_containers k g'
                      (iteration_tours @ [(refined_tour, refined_distance)]))))"

text \<open>
  \<^verbatim>\<open>min(iteration_tours, key=lambda x: x[1])\<close>: the first tour of least distance;
  \<^verbatim>\<open>min\<close> raises on an empty list.
\<close>

definition min_tour :: "(nat list \<times> real) list \<Rightarrow> error + (nat list \<times> real)" where
  "min_tour iteration_tours =
     (case iteration_tours of
        [] \<Rightarrow> Inl EmptySequence
      | t # rest \<Rightarrow> Inr (fold (\<lambda>x best. if snd x < snd best then x else best) rest t))"

text \<open>
  \<^verbatim>\<open>global_best_tour\<close> starts as \<^verbatim>\<open>None\<close> with \<^verbatim>\<open>global_best_distance = inf\<close>, and
  both are assigned together; every real distance is below \<^verbatim>\<open>inf\<close>.
\<close>

definition update_global_best ::
  "nat list \<times> real \<Rightarrow> (nat list \<times> real) option \<Rightarrow> (nat list \<times> real) option" where
  "update_global_best best_iter_tour global_best_tour =
     (case global_best_tour of
        None \<Rightarrow> Some best_iter_tour
      | Some gb \<Rightarrow> (if snd best_iter_tour < snd gb then Some best_iter_tour else Some gb))"

text \<open>The body of \<^verbatim>\<open>for iteration in range(ACO_NUM_ITERATIONS)\<close>, run \<open>k\<close> more times.\<close>

fun iterations_loop ::
  "'g chooser \<Rightarrow> matrix \<Rightarrow> nat \<Rightarrow> nat \<Rightarrow> matrix \<Rightarrow> (nat list \<times> real) option \<Rightarrow> 'g
     \<Rightarrow> (error + (matrix \<times> (nat list \<times> real) option \<times> 'g)) option" where
  "iterations_loop choices distance_matrix num_containers 0 pheromones global_best_tour g =
     Some (Inr (pheromones, global_best_tour, g))"
| "iterations_loop choices distance_matrix num_containers (Suc k) pheromones global_best_tour g =
     (case ants_loop choices pheromones distance_matrix num_containers ACO_NUM_ANTS g [] of
        None \<Rightarrow> None
      | Some (Inl e) \<Rightarrow> Some (Inl e)
      | Some (Inr (iteration_tours, g')) \<Rightarrow>
          (case min_tour iteration_tours of
             Inl e \<Rightarrow> Some (Inl e)
           | Inr best_iter_tour \<Rightarrow>
               (let global_best_tour' = update_global_best best_iter_tour global_best_tour
                in case update_pheromones pheromones iteration_tours best_iter_tour
                          global_best_tour' of
                     Inl e \<Rightarrow> Some (Inl e)
                   | Inr pheromones' \<Rightarrow>
                       iterations_loop choices distance_matrix num_containers k pheromones'
                         global_best_tour' g')))"

subsection \<open>Route assembly\<close>



subsection \<open>The entry point\<close>



subsection \<open>Predicates of the properties\<close>

text \<open>Every entry of a pheromone field is strictly positive.\<close>

definition all_positive :: "matrix \<Rightarrow> bool" where
  "all_positive m \<longleftrightarrow> (\<forall>row \<in> set m. \<forall>x \<in> set row. 0 < x)"







definition two_opt_terminates :: "matrix \<Rightarrow> nat \<Rightarrow> bool" where
  "two_opt_terminates dm n \<longleftrightarrow> (\<forall>tour. mset tour = mset [0..<n] \<longrightarrow> two_opt tour dm \<noteq> None)"





text \<open>
  A distance matrix that is the same in both directions, and the cost of a path as the sum
  of its legs read from the matrix without checks.
\<close>

definition symmetric_matrix :: "matrix \<Rightarrow> bool" where
  "symmetric_matrix m \<longleftrightarrow> (\<forall>i < length m. \<forall>j < length m. m ! i ! j = m ! j ! i)"

definition legs_cost :: "matrix \<Rightarrow> nat list \<Rightarrow> real" where
  "legs_cost d p = sum_list (map (\<lambda>(a, b). d ! a ! b) (zip p (tl p)))"

section \<open>Properties\<close>

subsection \<open>The haversine fallback never raises\<close>






subsection \<open>The distance matrix, cell by cell\<close>


lemma square_row: "square n m \<Longrightarrow> i < n \<Longrightarrow> length (m ! i) = n"
  by (simp add: square_def)













subsection \<open>Selection weights and probabilities\<close>

lemma map_err_pure: "(\<And>x. x \<in> set xs \<Longrightarrow> f x = Inr (h x)) \<Longrightarrow> map_err f xs = Inr (map h xs)"
  by (induction xs) simp_all

lemma matrix_get_square: "square n m \<Longrightarrow> i < n \<Longrightarrow> j < n \<Longrightarrow> matrix_get m i j = Inr (m ! i ! j)"
  by (simp add: matrix_get_def square_def)

lemma sum_list_divide: "sum_list (map (\<lambda>p. p / t) ws) = sum_list ws / (t :: real)"
  by (induction ws) (simp_all add: add_divide_distrib)

lemma sum_list_nonneg_zero: "(\<And>w. w \<in> set ws \<Longrightarrow> 0 \<le> (w :: real)) \<Longrightarrow> sum_list ws = 0 \<Longrightarrow> w \<in> set ws \<Longrightarrow> w = 0"
  by (induction ws) (auto simp: add_nonneg_eq_0_iff sum_list_nonneg)

lemma sum_list_all_zero: "\<forall>w \<in> set ws. w = 0 \<Longrightarrow> sum_list ws = (0 :: real)"
  by (induction ws) simp_all

text \<open>
  Claim C9. On a pheromone field and a distance matrix of the same shape with non-negative
  entries in the row of the current index, and for a non-empty list of unvisited
  candidates inside that shape: the weight of candidate \<open>k\<close> is
  \<open>pheromone[current][k] ^ ALPHA * (1 / distance[current][k]) ^ BETA\<close>, with the heuristic
  term 0 when the distance is 0; the probabilities are non-negative and sum to 1; they are
  the weights divided by their sum, and the uniform distribution when every weight is 0.
\<close>

theorem selection_probabilities_distribution:
  assumes ph: "square n pheromones" and dm: "square n distances"
    and cur: "current_idx < n" and cand: "\<forall>k \<in> set unvisited. k < n"
    and ne: "unvisited \<noteq> []"
    and ph_pos: "\<forall>k \<in> set unvisited. 0 \<le> pheromones ! current_idx ! k"
    and dm_pos: "\<forall>k \<in> set unvisited. 0 \<le> distances ! current_idx ! k"
  shows "\<exists>ws ps.
     selection_weights pheromones distances current_idx unvisited = Inr ws \<and>
     selection_probabilities pheromones distances current_idx unvisited = Inr ps \<and>
     ws = map (\<lambda>k. (pheromones ! current_idx ! k) ^ ACO_ALPHA *
                 (if distances ! current_idx ! k = 0 then 0
                  else (1 / distances ! current_idx ! k) ^ ACO_BETA)) unvisited \<and>
     length ps = length unvisited \<and>
     (\<forall>p \<in> set ps. 0 \<le> p) \<and> sum_list ps = 1 \<and>
     (if \<forall>w \<in> set ws. w = 0
      then ps = replicate (length unvisited) (1 / real (length unvisited))
      else ps = map (\<lambda>w. w / sum_list ws) ws)"
proof -
  define h where "h k = (pheromones ! current_idx ! k) ^ ACO_ALPHA *
                 (if distances ! current_idx ! k = 0 then 0
                  else (1 / distances ! current_idx ! k) ^ ACO_BETA)" for k
  define ws where "ws = map h unvisited"
  have w: "selection_weight pheromones distances current_idx k = Inr (h k)" if "k \<in> set unvisited" for k
  proof -
    have "k < n" and "0 \<le> distances ! current_idx ! k" using that cand dm_pos by auto
    then show ?thesis
      using matrix_get_square[OF ph cur] matrix_get_square[OF dm cur]
      by (auto simp: selection_weight_def h_def Let_def)
  qed
  have sw: "selection_weights pheromones distances current_idx unvisited = Inr ws"
    unfolding selection_weights_def ws_def by (rule map_err_pure) (rule w)
  have nonneg: "0 \<le> x" if "x \<in> set ws" for x
    using that ph_pos dm_pos unfolding ws_def h_def by auto
  have len: "length ws = length unvisited" "ws \<noteq> []" using ne by (simp_all add: ws_def)
  have total: "0 \<le> sum_list ws" using nonneg by (simp add: sum_list_nonneg)
  have wsh: "ws = map (\<lambda>k. (pheromones ! current_idx ! k) ^ ACO_ALPHA *
                 (if distances ! current_idx ! k = 0 then 0
                  else (1 / distances ! current_idx ! k) ^ ACO_BETA)) unvisited"
    unfolding ws_def h_def ..
  have final: "\<exists>ws ps.
     selection_weights pheromones distances current_idx unvisited = Inr ws \<and>
     selection_probabilities pheromones distances current_idx unvisited = Inr ps \<and>
     ws = map (\<lambda>k. (pheromones ! current_idx ! k) ^ ACO_ALPHA *
                 (if distances ! current_idx ! k = 0 then 0
                  else (1 / distances ! current_idx ! k) ^ ACO_BETA)) unvisited \<and>
     length ps = length unvisited \<and>
     (\<forall>p \<in> set ps. 0 \<le> p) \<and> sum_list ps = 1 \<and>
     (if \<forall>w \<in> set ws. w = 0
      then ps = replicate (length unvisited) (1 / real (length unvisited))
      else ps = map (\<lambda>w. w / sum_list ws) ws)"
    if sp: "selection_probabilities pheromones distances current_idx unvisited = Inr ps"
      and l: "length ps = length unvisited" and nn: "\<forall>p \<in> set ps. 0 \<le> p"
      and one: "sum_list ps = 1"
      and shape: "if \<forall>w \<in> set ws. w = 0
          then ps = replicate (length unvisited) (1 / real (length unvisited))
          else ps = map (\<lambda>w. w / sum_list ws) ws" for ps
    using sw sp wsh l nn one shape by blast
  show ?thesis
  proof (cases "sum_list ws > 0")
    case True
    have nz: "\<not> (\<forall>w \<in> set ws. w = 0)"
    proof
      assume "\<forall>w \<in> set ws. w = 0"
      then have "sum_list ws = 0" by (rule sum_list_all_zero)
      with True show False by simp
    qed
    have sp: "selection_probabilities pheromones distances current_idx unvisited =
        Inr (map (\<lambda>w. w / sum_list ws) ws)"
      using True by (simp add: selection_probabilities_def sw normalize_weights_def Let_def)
    have nn: "\<forall>p \<in> set (map (\<lambda>w. w / sum_list ws) ws). 0 \<le> p"
      using nonneg True by auto
    have one: "sum_list (map (\<lambda>w. w / sum_list ws) ws) = 1"
      using True by (simp add: sum_list_divide)
    show ?thesis
      by (rule final[OF sp _ nn one]) (simp_all add: nz len)
  next
    case False
    then have z: "sum_list ws = 0" using total by simp
    have allz: "\<forall>w \<in> set ws. w = 0" using sum_list_nonneg_zero[OF nonneg z] by blast
    have sp: "selection_probabilities pheromones distances current_idx unvisited =
        Inr (replicate (length unvisited) (1 / real (length unvisited)))"
      using z len ne by (simp add: selection_probabilities_def sw normalize_weights_def Let_def)
    have one: "sum_list (replicate (length unvisited) (1 / real (length unvisited))) = 1"
      using ne by (simp add: sum_list_replicate)
    have nn: "\<forall>p \<in> set (replicate (length unvisited) (1 / real (length unvisited))). 0 \<le> p"
      by simp
    show ?thesis
      by (rule final[OF sp _ nn one]) (simp_all add: allz)
  qed
qed

text \<open>
  Claim C9 at the initial pheromone field of three locations, from the depot, with both
  containers unvisited.
\<close>

theorem selection_probabilities_distribution_witness:
  "selection_weights (initialize_pheromones 3) [[0, 2, 4], [2, 0, 1], [4, 1, 0]] 0 [1, 2]
     = Inr [1 / 400, 1 / 1600] \<and>
   selection_probabilities (initialize_pheromones 3) [[0, 2, 4], [2, 0, 1], [4, 1, 0]] 0 [1, 2]
     = Inr [4 / 5, 1 / 5]"
proof -
  let ?ph = "initialize_pheromones 3"
  let ?d = "[[0, 2, 4], [2, 0, 1], [4, 1, 0]] :: matrix"
  have ph: "?ph = [[1/100, 1/100, 1/100], [1/100, 1/100, 1/100], [1/100, 1/100, 1/100]]"
    by (simp add: initialize_pheromones_def ACO_INITIAL_PHEROMONE_def numeral_3_eq_3)
  have h1: "square 3 ?ph" unfolding ph by (simp add: square_def)
  have h2: "square 3 ?d" by (simp add: square_def)
  have h3: "(0::nat) < 3" by simp
  have h4: "\<forall>k \<in> set [1, 2 :: nat]. k < 3" by simp
  have h5: "[1, 2 :: nat] \<noteq> []" by simp
  have h6: "\<forall>k \<in> set [1, 2 :: nat]. 0 \<le> ?ph ! 0 ! k" unfolding ph by simp
  have h7: "\<forall>k \<in> set [1, 2 :: nat]. 0 \<le> ?d ! 0 ! k" by simp
  obtain ws ps where
    sw: "selection_weights ?ph ?d 0 [1, 2] = Inr ws"
    and sp: "selection_probabilities ?ph ?d 0 [1, 2] = Inr ps"
    and ws: "ws = map (\<lambda>k. (?ph ! 0 ! k) ^ ACO_ALPHA *
                 (if ?d ! 0 ! k = 0 then 0 else (1 / ?d ! 0 ! k) ^ ACO_BETA)) [1, 2]"
    and shape: "if \<forall>w \<in> set ws. w = 0
      then ps = replicate (length [1, 2 :: nat]) (1 / real (length [1, 2 :: nat]))
      else ps = map (\<lambda>w. w / sum_list ws) ws"
    using selection_probabilities_distribution[OF h1 h2 h3 h4 h5 h6 h7] by blast
  have ws': "ws = [1 / 400, 1 / 1600]"
    unfolding ws ph by (simp add: ACO_ALPHA_def ACO_BETA_def power2_eq_square)
  have ps': "ps = [4 / 5, 1 / 5]"
    using shape unfolding ws' by simp
  show ?thesis using sw sp ws' ps' by simp
qed

subsection \<open>The pheromone field stays positive\<close>

lemma all_positive_initialize: "all_positive (initialize_pheromones n)"
  by (simp add: all_positive_def initialize_pheromones_def ACO_INITIAL_PHEROMONE_def)

lemma all_positive_evaporate: "all_positive m \<Longrightarrow> all_positive (evaporate m)"
  by (auto simp: all_positive_def evaporate_def ACO_RHO_def)

lemma all_positive_matrix_set:
  assumes "all_positive m" and "0 < v"
  shows "all_positive (matrix_set m i j v)"
proof (cases "i < length m")
  case True
  have row: "\<forall>x \<in> set ((m ! i)[j := v]). 0 < x"
  proof
    fix x assume "x \<in> set ((m ! i)[j := v])"
    then have "x \<in> insert v (set (m ! i))"
      using set_update_subset_insert[of "m ! i" j v] by blast
    moreover have "m ! i \<in> set m" using True by simp
    ultimately show "0 < x" using assms unfolding all_positive_def by blast
  qed
  have "set (m[i := (m ! i)[j := v]]) \<subseteq> insert ((m ! i)[j := v]) (set m)"
    by (rule set_update_subset_insert)
  then show ?thesis using row assms(1) unfolding matrix_set_def all_positive_def by blast
next
  case False
  then have "m[i := (m ! i)[j := v]] = m" by (simp add: list_update_beyond)
  then show ?thesis using assms(1) by (simp add: matrix_set_def)
qed

lemma all_positive_matrix_add:
  assumes "all_positive m" and "0 \<le> v" and "matrix_add m i j v = Inr m'"
  shows "all_positive m'"
proof -
  have r: "i < length m" "j < length (m ! i)" and m': "m' = matrix_set m i j (m ! i ! j + v)"
    using assms(3) by (auto simp: matrix_add_def split: if_splits)
  have "m ! i \<in> set m" "m ! i ! j \<in> set (m ! i)" using r by simp_all
  then have "0 < m ! i ! j" using assms(1) unfolding all_positive_def by blast
  then show ?thesis unfolding m' using assms(1,2) by (intro all_positive_matrix_set) simp_all
qed

lemma for_each_invariant:
  assumes "\<And>x s s'. x \<in> set xs \<Longrightarrow> I s \<Longrightarrow> body x s = Inr s' \<Longrightarrow> I s'"
    and "I s" and "for_each body xs s = Inr s'"
  shows "I s'"
  using assms
proof (induction xs arbitrary: s)
  case Nil
  then show ?case by simp
next
  case (Cons x xs)
  show ?case
  proof (cases "body x s")
    case (Inl e)
    then show ?thesis using Cons.prems(3) by simp
  next
    case (Inr s1)
    have i1: "I s1" using Cons.prems(1)[of x s s1] Cons.prems(2) Inr by simp
    have r: "for_each body xs s1 = Inr s'" using Cons.prems(3) Inr by simp
    show ?thesis
      by (rule Cons.IH[OF _ i1 r]) (rule Cons.prems(1), simp_all)
  qed
qed

lemma deposit_tour_InrE:
  assumes "deposit_tour m tour v = Inr m'"
  obtains ph1 ph2 where "tour \<noteq> []"
    and "matrix_add m 0 (hd tour + 1) v = Inr ph1"
    and "for_each (\<lambda>i ph. matrix_add ph (tour ! i + 1) (tour ! (i + 1) + 1) v)
              [0..<length tour - 1] ph1 = Inr ph2"
    and "matrix_add ph2 (last tour + 1) 0 v = Inr m'"
proof -
  have ne: "tour \<noteq> []" using assms by (auto simp: deposit_tour_def)
  show ?thesis
  proof (cases "matrix_add m 0 (hd tour + 1) v")
    case (Inl e)
    then show ?thesis using assms ne by (simp add: deposit_tour_def)
  next
    case a: (Inr ph1)
    show ?thesis
    proof (cases "for_each (\<lambda>i ph. matrix_add ph (tour ! i + 1) (tour ! (i + 1) + 1) v)
              [0..<length tour - 1] ph1")
      case (Inl e)
      then show ?thesis using assms ne a by (simp add: deposit_tour_def)
    next
      case b: (Inr ph2)
      have "matrix_add ph2 (last tour + 1) 0 v = Inr m'"
        using assms ne a b by (simp add: deposit_tour_def)
      then show ?thesis using that ne a b by blast
    qed
  qed
qed

lemma all_positive_deposit_tour:
  assumes "all_positive m" and "0 \<le> v" and "deposit_tour m tour v = Inr m'"
  shows "all_positive m'"
proof -
  from assms(3) obtain ph1 ph2 where
    a: "matrix_add m 0 (hd tour + 1) v = Inr ph1"
    and b: "for_each (\<lambda>i ph. matrix_add ph (tour ! i + 1) (tour ! (i + 1) + 1) v)
              [0..<length tour - 1] ph1 = Inr ph2"
    and c: "matrix_add ph2 (last tour + 1) 0 v = Inr m'"
    by (rule deposit_tour_InrE)
  have p1: "all_positive ph1" using all_positive_matrix_add[OF assms(1,2) a] .
  have p2: "all_positive ph2"
    by (rule for_each_invariant[where I = all_positive, OF _ p1 b])
       (rule all_positive_matrix_add[OF _ assms(2)])
  show ?thesis using all_positive_matrix_add[OF p2 assms(2) c] .
qed

lemma update_pheromones_InrE:
  assumes "update_pheromones m all_tours best_tour global_best = Inr m'"
  obtains ph1 where
    "(if snd best_tour > 0
      then deposit_tour (evaporate m) (fst best_tour) (ACO_Q / snd best_tour)
      else Inr (evaporate m)) = Inr ph1"
    and "(case global_best of None \<Rightarrow> Inr ph1
          | Some gb \<Rightarrow> (if snd gb > 0
               then deposit_tour ph1 (fst gb) (ACO_ELITE_WEIGHT * ACO_Q / snd gb)
               else Inr ph1)) = Inr m'"
proof (cases "if snd best_tour > 0
      then deposit_tour (evaporate m) (fst best_tour) (ACO_Q / snd best_tour)
      else Inr (evaporate m)")
  case (Inl e)
  then show ?thesis using assms unfolding update_pheromones_def Let_def by simp
next
  case (Inr ph1)
  then show ?thesis using assms that unfolding update_pheromones_def Let_def by simp
qed

lemma all_positive_update_pheromones:
  assumes "all_positive m" and "update_pheromones m all_tours best_tour global_best = Inr m'"
  shows "all_positive m'"
proof -
  let ?e = "evaporate m"
  have e: "all_positive ?e" using assms(1) by (rule all_positive_evaporate)
  from assms(2) obtain ph1 where s1: "(if snd best_tour > 0
               then deposit_tour ?e (fst best_tour) (ACO_Q / snd best_tour)
               else Inr ?e) = Inr ph1"
    and s2: "(case global_best of None \<Rightarrow> Inr ph1
              | Some gb \<Rightarrow> (if snd gb > 0
                   then deposit_tour ph1 (fst gb) (ACO_ELITE_WEIGHT * ACO_Q / snd gb)
                   else Inr ph1)) = Inr m'"
    by (rule update_pheromones_InrE)
  have p1: "all_positive ph1"
  proof (cases "snd best_tour > 0")
    case True
    then have v: "0 \<le> ACO_Q / snd best_tour" by (simp add: ACO_Q_def)
    have "deposit_tour ?e (fst best_tour) (ACO_Q / snd best_tour) = Inr ph1"
      using s1 True by simp
    then show ?thesis by (rule all_positive_deposit_tour[OF e v])
  next
    case False then show ?thesis using s1 e by simp
  qed
  show ?thesis
  proof (cases global_best)
    case None then show ?thesis using s2 p1 by simp
  next
    case (Some gb)
    show ?thesis
    proof (cases "snd gb > 0")
      case True
      then have v: "0 \<le> ACO_ELITE_WEIGHT * ACO_Q / snd gb"
        by (simp add: ACO_Q_def ACO_ELITE_WEIGHT_def)
      have "deposit_tour ph1 (fst gb) (ACO_ELITE_WEIGHT * ACO_Q / snd gb) = Inr m'"
        using s2 Some True by simp
      then show ?thesis by (rule all_positive_deposit_tour[OF p1 v])
    next
      case False then show ?thesis using s2 Some p1 by simp
    qed
  qed
qed

text \<open>
  Claim C6. Starting from the initial pheromone field and running any number of
  evaporation-plus-deposit cycles, each with any tours, any iteration-best tour and any
  all-time-best tour, every entry of the field is strictly positive (with no cycle at all
  this is the initial field).
\<close>

theorem pheromones_stay_positive:
  assumes "for_each (\<lambda>cycle ph. update_pheromones ph (fst cycle) (fst (snd cycle)) (snd (snd cycle)))
             cycles (initialize_pheromones n) = Inr pheromones"
  shows "all_positive pheromones"
  by (rule for_each_invariant[where I = all_positive, OF _ all_positive_initialize assms])
     (rule all_positive_update_pheromones)

text \<open>The same inside the colony loop: the field it ends with is strictly positive.\<close>

lemma iterations_loop_SucE:
  assumes "iterations_loop choices dm nc (Suc k) ph gb g = Some (Inr res)"
  obtains tours g1 best ph1 where
    "ants_loop choices ph dm nc ACO_NUM_ANTS g [] = Some (Inr (tours, g1))"
    and "min_tour tours = Inr best"
    and "update_pheromones ph tours best (update_global_best best gb) = Inr ph1"
    and "iterations_loop choices dm nc k ph1 (update_global_best best gb) g1 = Some (Inr res)"
proof (cases "ants_loop choices ph dm nc ACO_NUM_ANTS g []")
  case None
  then show ?thesis using assms by simp
next
  case (Some r)
  show ?thesis
  proof (cases r)
    case (Inl e)
    then show ?thesis using assms Some by simp
  next
    case (Inr p)
    obtain tours g1 where p: "p = (tours, g1)" by (cases p)
    note a = Some[unfolded Inr p]
    show ?thesis
    proof (cases "min_tour tours")
      case (Inl e)
      then show ?thesis using assms a by simp
    next
      case b: (Inr best)
      show ?thesis
      proof (cases "update_pheromones ph tours best (update_global_best best gb)")
        case (Inl e)
        then show ?thesis using assms a b by (simp add: Let_def)
      next
        case c: (Inr ph1)
        have "iterations_loop choices dm nc k ph1 (update_global_best best gb) g1 = Some (Inr res)"
          using assms a b c by (simp add: Let_def)
        then show ?thesis using that a b c by blast
      qed
    qed
  qed
qed

lemma iterations_loop_positive:
  assumes "iterations_loop choices dm nc k ph gb g = Some (Inr (ph', gb', g'))"
    and "all_positive ph"
  shows "all_positive ph'"
  using assms
proof (induction k arbitrary: ph gb g)
  case 0
  then show ?case by simp
next
  case (Suc k)
  from Suc.prems(1) obtain tours g1 best ph1 where
    u: "update_pheromones ph tours best (update_global_best best gb) = Inr ph1"
    and r: "iterations_loop choices dm nc k ph1 (update_global_best best gb) g1 = Some (Inr (ph', gb', g'))"
    by (rule iterations_loop_SucE)
  show ?case using Suc.IH[OF r all_positive_update_pheromones[OF Suc.prems(2) u]] .
qed

text \<open>Claim C6 at two cycles over a depot and one container.\<close>

theorem pheromones_stay_positive_witness:
  "for_each (\<lambda>cycle ph. update_pheromones ph (fst cycle) (fst (snd cycle)) (snd (snd cycle)))
     [([([0], 4)], ([0], 4), Some ([0], 4)), ([([0], 5)], ([0], 5), Some ([0], 4))]
     (initialize_pheromones 2)
     = Inr [[81 / 10000, 1375081 / 10000], [1375081 / 10000, 81 / 10000]] \<and>
   all_positive [[81 / 10000, 1375081 / 10000], [1375081 / 10000, 81 / 10000]]"
proof -
  have run: "for_each (\<lambda>cycle ph. update_pheromones ph (fst cycle) (fst (snd cycle)) (snd (snd cycle)))
     [([([0], 4)], ([0], 4), Some ([0], 4)), ([([0], 5)], ([0], 5), Some ([0], 4))]
     (initialize_pheromones 2)
     = Inr [[81 / 10000, 1375081 / 10000], [1375081 / 10000, 81 / 10000]]"
    by (simp add: update_pheromones_def deposit_tour_def matrix_add_def matrix_set_def
        evaporate_def initialize_pheromones_def ACO_INITIAL_PHEROMONE_def ACO_RHO_def ACO_Q_def
        ACO_ELITE_WEIGHT_def numeral_2_eq_2)
  show ?thesis using run pheromones_stay_positive[OF run] by simp
qed

subsection \<open>2-opt on a matrix that is not symmetric\<close>

lemma scan_pairs_4: "scan_pairs 4 = [(1, 2)]"
  by (simp add: scan_pairs_def upt_rec)

lemma scan_pairs_5: "scan_pairs 5 = [(1, 2), (1, 3), (2, 3)]"
  by (simp add: scan_pairs_def upt_rec)

lemma two_opt_loop_stop:
  "length path = n \<Longrightarrow> first_improving d path (scan_pairs n) = Inr None \<Longrightarrow>
   two_opt_loop d path = Some (Inr path)"
  by (subst two_opt_loop.simps) simp

lemma two_opt_loop_step:
  "length path = n \<Longrightarrow> first_improving d path (scan_pairs n) = Inr (Some (i, j)) \<Longrightarrow>
   reverse_segment path i j = path' \<Longrightarrow>
   two_opt_loop d path = two_opt_loop d path'"
  by (subst two_opt_loop.simps) simp

text \<open>
  Claim C2 at a distance matrix with positive off-diagonal entries that is not symmetric
  (it satisfies the triangle inequality): the refiner accepts the reversal of the two stops,
  because the two boundary edges get shorter, and returns a tour whose closed-path cost is
  5, while the cost of the input tour is 4. The test of \<^verbatim>\<open>_two_opt\<close> leaves out the
  edges inside the reversed segment, which are traversed in the other direction afterwards.
\<close>

theorem two_opt_asymmetric_increase:
  "two_opt [0, 1] [[0, 2, 1], [1, 0, 1], [1, 3, 0]] = Some (Inr [1, 0]) \<and>
   tour_cost [[0, 2, 1], [1, 0, 1], [1, 3, 0]] [0, 1] = Inr 4 \<and>
   tour_cost [[0, 2, 1], [1, 0, 1], [1, 3, 0]] [1, 0] = Inr 5"
proof -
  let ?d = "[[0, 2, 1], [1, 0, 1], [1, 3, 0]] :: matrix"
  have tp: "tour_path [0, 1] = [0, 1, 2, 0]" by (simp add: tour_path_def)
  have pt: "path_tour [0, 2, 1, 0] = [1, 0]" by (simp add: path_tour_def)
  have l0: "length [0, 1, 2, 0 :: nat] = 4" and l1: "length [0, 2, 1, 0 :: nat] = 4" by simp_all
  have a: "first_improving ?d [0, 1, 2, 0] (scan_pairs 4) = Inr (Some (1, 2))"
    by (simp add: scan_pairs_4 improving_def matrix_get_def)
  have r: "reverse_segment [0, 1, 2, 0] 1 2 = [0, 2, 1, 0]"
    by (simp add: reverse_segment_def)
  have b: "first_improving ?d [0, 2, 1, 0] (scan_pairs 4) = Inr None"
    by (simp add: scan_pairs_4 improving_def matrix_get_def)
  have "two_opt_loop ?d [0, 1, 2, 0] = Some (Inr [0, 2, 1, 0])"
    by (rule trans[OF two_opt_loop_step[OF l0 a r] two_opt_loop_stop[OF l1 b]])
  then have "two_opt [0, 1] ?d = Some (Inr [1, 0])"
    unfolding two_opt_def tp by (simp only: option.case sum.case pt)
  moreover have "tour_cost ?d [0, 1] = Inr 4"
    by (simp add: tour_cost_def tour_path_def path_cost_def matrix_get_def upt_rec)
  moreover have "tour_cost ?d [1, 0] = Inr 5"
    by (simp add: tour_cost_def tour_path_def path_cost_def matrix_get_def upt_rec)
  ultimately show ?thesis by (intro conjI)
qed

text \<open>
  On the following matrix the scan accepts a reversal on each of four paths, and the
  fourth reversal gives the first path again: the loop never ends.
\<close>

lemma two_opt_loop_cycle:
  assumes "two_opt_loop d path = Some y"
  shows "\<not> (d = [[0, 3, 3, 4], [2, 0, 4, 1], [3, 1, 0, 1], [2, 4, 4, 0]] \<and>
           path \<in> {[0, 1, 2, 3, 0], [0, 1, 3, 2, 0], [0, 2, 3, 1, 0], [0, 3, 2, 1, 0]})"
proof (rule two_opt_loop.raw_induct[where P = "\<lambda>d path y.
    \<not> (d = [[0, 3, 3, 4], [2, 0, 4, 1], [3, 1, 0, 1], [2, 4, 4, 0]] \<and>
       path \<in> {[0, 1, 2, 3, 0], [0, 1, 3, 2, 0], [0, 2, 3, 1, 0], [0, 3, 2, 1, 0]})", OF _ assms])
  fix loop :: "matrix \<Rightarrow> nat list \<Rightarrow> (error + nat list) option" and d path y
  let ?d = "[[0, 3, 3, 4], [2, 0, 4, 1], [3, 1, 0, 1], [2, 4, 4, 0]] :: matrix"
  let ?S = "{[0, 1, 2, 3, 0], [0, 1, 3, 2, 0], [0, 2, 3, 1, 0], [0, 3, 2, 1, 0 :: nat]}"
  assume IH: "\<And>d' p' y'. loop d' p' = Some y' \<Longrightarrow> \<not> (d' = ?d \<and> p' \<in> ?S)"
  assume hyps: "(case first_improving d path (scan_pairs (length path)) of
        Inl e \<Rightarrow> Some (Inl e)
      | Inr None \<Rightarrow> Some (Inr path)
      | Inr (Some (i, j)) \<Rightarrow> loop d (reverse_segment path i j)) = Some y"
  have s0: "first_improving ?d [0, 1, 2, 3, 0] (scan_pairs 5) = Inr (Some (2, 3))"
    by (simp add: scan_pairs_5 improving_def matrix_get_def)
  have s1: "first_improving ?d [0, 1, 3, 2, 0] (scan_pairs 5) = Inr (Some (1, 3))"
    by (simp add: scan_pairs_5 improving_def matrix_get_def)
  have s2: "first_improving ?d [0, 2, 3, 1, 0] (scan_pairs 5) = Inr (Some (1, 2))"
    by (simp add: scan_pairs_5 improving_def matrix_get_def)
  have s3: "first_improving ?d [0, 3, 2, 1, 0] (scan_pairs 5) = Inr (Some (1, 3))"
    by (simp add: scan_pairs_5 improving_def matrix_get_def)
  have r0: "reverse_segment [0, 1, 2, 3, 0] 2 3 = [0, 1, 3, 2, 0]"
    and r1: "reverse_segment [0, 1, 3, 2, 0] 1 3 = [0, 2, 3, 1, 0]"
    and r2: "reverse_segment [0, 2, 3, 1, 0] 1 2 = [0, 3, 2, 1, 0]"
    and r3: "reverse_segment [0, 3, 2, 1, 0] 1 3 = [0, 1, 2, 3, 0]"
    by (simp_all add: reverse_segment_def)
  have len: "length [0, 1, 2, 3, 0 :: nat] = 5" "length [0, 1, 3, 2, 0 :: nat] = 5"
    "length [0, 2, 3, 1, 0 :: nat] = 5" "length [0, 3, 2, 1, 0 :: nat] = 5" by simp_all
  have next_in: "\<not> (\<exists>p \<in> ?S. loop ?d p = Some y)"
    using IH by blast
  show "\<not> (d = ?d \<and> path \<in> ?S)"
  proof
    assume c: "d = ?d \<and> path \<in> ?S"
    then have d: "d = ?d" by simp
    from c consider "path = [0, 1, 2, 3, 0]" | "path = [0, 1, 3, 2, 0]" | "path = [0, 2, 3, 1, 0]"
      | "path = [0, 3, 2, 1, 0]" by blast
    then show False
    proof cases
      case 1
      have "loop ?d [0, 1, 3, 2, 0] = Some y"
        using hyps[unfolded d 1 len s0] by (simp only: sum.case option.case prod.case r0)
      then show False using next_in by blast
    next
      case 2
      have "loop ?d [0, 2, 3, 1, 0] = Some y"
        using hyps[unfolded d 2 len s1] by (simp only: sum.case option.case prod.case r1)
      then show False using next_in by blast
    next
      case 3
      have "loop ?d [0, 3, 2, 1, 0] = Some y"
        using hyps[unfolded d 3 len s2] by (simp only: sum.case option.case prod.case r2)
      then show False using next_in by blast
    next
      case 4
      have "loop ?d [0, 1, 2, 3, 0] = Some y"
        using hyps[unfolded d 4 len s3] by (simp only: sum.case option.case prod.case r3)
      then show False using next_in by blast
    qed
  qed
qed

text \<open>
  Claim C10 at a distance matrix with positive off-diagonal entries that is not symmetric
  (it satisfies the triangle inequality): the refiner does not terminate on the tour of
  the three stops in input order.
\<close>

theorem two_opt_asymmetric_diverges:
  "two_opt [0, 1, 2] [[0, 3, 3, 4], [2, 0, 4, 1], [3, 1, 0, 1], [2, 4, 4, 0]] = None"
proof -
  let ?d = "[[0, 3, 3, 4], [2, 0, 4, 1], [3, 1, 0, 1], [2, 4, 4, 0]] :: matrix"
  have tp: "tour_path [0, 1, 2] = [0, 1, 2, 3, 0]" by (simp add: tour_path_def)
  have "two_opt_loop ?d [0, 1, 2, 3, 0] \<noteq> Some y" for y
    using two_opt_loop_cycle[of ?d "[0, 1, 2, 3, 0]" y] by blast
  then have "two_opt_loop ?d [0, 1, 2, 3, 0] = None"
    by (cases "two_opt_loop ?d [0, 1, 2, 3, 0]") blast+
  then show ?thesis unfolding two_opt_def tp by (simp only: option.case)
qed

subsection \<open>Every tour visits every container once\<close>


lemma scan_pairs_bounds:
  "(i, j) \<in> set (scan_pairs len) \<Longrightarrow> 1 \<le> i \<and> i < j \<and> j + 1 < len"
  by (auto simp: scan_pairs_def)

lemma first_improving_mem:
  "first_improving d path pairs = Inr (Some (i, j)) \<Longrightarrow> (i, j) \<in> set pairs"
proof (induction pairs)
  case Nil
  then show ?case by simp
next
  case (Cons p pairs)
  obtain a b where p: "p = (a, b)" by (cases p)
  show ?case
  proof (cases "improving d path a b")
    case (Inl e)
    then show ?thesis using Cons.prems p by simp
  next
    case (Inr t)
    then show ?thesis using Cons p by (cases t) auto
  qed
qed


lemma reverse_segment_mset:
  assumes "i \<le> j"
  shows "mset (reverse_segment path i j) = mset path"
proof -
  have "drop (j + 1 - i) (drop i path) = drop (j + 1) path" using assms by simp
  then have "path = take i path @ take (j + 1 - i) (drop i path) @ drop (j + 1) path"
    by (metis append_take_drop_id)
  then have "mset path = mset (take i path) + mset (take (j + 1 - i) (drop i path))
      + mset (drop (j + 1) path)"
    by (metis mset_append add.assoc)
  then show ?thesis by (simp add: reverse_segment_def)
qed















subsection \<open>The optimiser returns a result\<close>





lemma improving_total:
  assumes "square N d" and "\<forall>x \<in> set path. x < N" and "1 \<le> i" and "i < j" and "j + 1 < length path"
  shows "\<exists>b. improving d path i j = Inr b"
proof -
  have "path ! (i - 1) < N" "path ! i < N" "path ! j < N" "path ! (j + 1) < N"
    using assms(2-5) by (simp_all add: nth_mem)
  then show ?thesis
    using matrix_get_square[OF assms(1)] by (simp add: improving_def Let_def)
qed

lemma first_improving_total:
  assumes "square N d" and "\<forall>x \<in> set path. x < N"
    and "\<forall>(i, j) \<in> set pairs. 1 \<le> i \<and> i < j \<and> j + 1 < length path"
  shows "\<exists>r. first_improving d path pairs = Inr r"
  using assms(3)
proof (induction pairs)
  case Nil
  then show ?case by simp
next
  case (Cons p pairs)
  obtain i j where p: "p = (i, j)" by (cases p)
  have "1 \<le> i" "i < j" "j + 1 < length path" using Cons.prems p by auto
  then obtain b where b: "improving d path i j = Inr b"
    using improving_total[OF assms(1,2)] by blast
  have "\<exists>r. first_improving d path pairs = Inr r" using Cons by simp
  then show ?case using p b by (cases b) auto
qed


lemma tour_path_in_range:
  assumes "mset tour = mset [0..<n]"
  shows "\<forall>x \<in> set (tour_path tour). x < n + 1" and "length tour = n"
proof -
  have "set tour = {0..<n}" using assms by (metis mset_eq_setD set_upt)
  then show "\<forall>x \<in> set (tour_path tour). x < n + 1" by (auto simp: tour_path_def)
  show "length tour = n" using assms by (metis mset_eq_length length_upt diff_zero)
qed

















subsection \<open>The route result\<close>






lemma matrix_get_InrD: "matrix_get m a b = Inr v \<Longrightarrow> v = m ! a ! b"
  by (auto simp: matrix_get_def split: if_splits)













subsection \<open>2-opt on a symmetric matrix terminates\<close>

text \<open>
  On a symmetric matrix the test of the scan is the exact change of the cost of the closed
  path, so every accepted reversal makes the path strictly cheaper, and there are only
  finitely many paths with the same stops.
\<close>

lemma legs_cost_Nil: "legs_cost d [] = 0"
  by (simp add: legs_cost_def)

lemma legs_cost_single: "legs_cost d [x] = 0"
  by (simp add: legs_cost_def)

lemma legs_cost_Cons: "legs_cost d (x # y # ys) = d ! x ! y + legs_cost d (y # ys)"
  by (simp add: legs_cost_def)

lemma legs_cost_append:
  "xs \<noteq> [] \<Longrightarrow> ys \<noteq> [] \<Longrightarrow>
   legs_cost d (xs @ ys) = legs_cost d xs + d ! last xs ! hd ys + legs_cost d ys"
proof (induction xs)
  case Nil
  then show ?case by simp
next
  case (Cons x xs)
  obtain y ys' where ys: "ys = y # ys'" using Cons.prems(2) by (cases ys) auto
  show ?case
  proof (cases xs)
    case Nil
    have "legs_cost d ([x] @ y # ys') = d ! x ! y + legs_cost d (y # ys')"
      by (simp only: append_Cons append_Nil legs_cost_Cons)
    then show ?thesis unfolding Nil ys by (simp add: legs_cost_single)
  next
    case (Cons x' xs')
    have ih: "legs_cost d (xs @ ys) = legs_cost d xs + d ! last xs ! hd ys + legs_cost d ys"
      using Cons.IH Cons.prems(2) Cons by simp
    have "legs_cost d ((x # x' # xs') @ ys) = d ! x ! x' + legs_cost d ((x' # xs') @ ys)"
      by (simp only: append_Cons legs_cost_Cons)
    moreover have "legs_cost d (x # x' # xs') = d ! x ! x' + legs_cost d (x' # xs')"
      by (rule legs_cost_Cons)
    moreover have "last (x # x' # xs') = last (x' # xs')" by simp
    ultimately show ?thesis using ih unfolding Cons by simp
  qed
qed




lemma legs_cost_snoc:
  assumes "xs \<noteq> []"
  shows "legs_cost d (xs @ [x]) = legs_cost d xs + d ! last xs ! x"
proof -
  have "legs_cost d (xs @ [x]) = legs_cost d xs + d ! last xs ! hd [x] + legs_cost d [x]"
    by (rule legs_cost_append[OF assms]) simp
  then show ?thesis by (simp add: legs_cost_single)
qed


lemma legs_cost_rev:
  assumes "\<forall>a \<in> set xs. \<forall>b \<in> set xs. d ! a ! b = d ! b ! a"
  shows "legs_cost d (rev xs) = legs_cost d xs"
  using assms
proof (induction xs)
  case Nil
  show ?case by simp
next
  case (Cons x xs)
  show ?case
  proof (cases xs)
    case Nil
    show ?thesis unfolding Nil by simp
  next
    case c: (Cons y ys)
    have sub: "\<forall>a \<in> set xs. \<forall>b \<in> set xs. d ! a ! b = d ! b ! a"
      using Cons.prems by (meson list.set_intros(2))
    have ih: "legs_cost d (rev xs) = legs_cost d xs" by (rule Cons.IH[OF sub])
    have ne: "rev xs \<noteq> []" unfolding c by simp
    have l: "last (rev xs) = y" unfolding c by simp
    have xy: "d ! y ! x = d ! x ! y"
    proof -
      have "y \<in> set (x # xs)" "x \<in> set (x # xs)" unfolding c by simp_all
      then show ?thesis using Cons.prems by blast
    qed
    have "legs_cost d (rev (x # xs)) = legs_cost d (rev xs @ [x])" by simp
    also have "\<dots> = legs_cost d (rev xs) + d ! last (rev xs) ! x"
      by (rule legs_cost_snoc[OF ne])
    also have "\<dots> = legs_cost d xs + d ! x ! y" unfolding ih l xy ..
    also have "\<dots> = legs_cost d (x # xs)"
      unfolding c by (simp add: legs_cost_Cons)
    finally show ?thesis .
  qed
qed

lemma reverse_segment_cost:
  assumes i: "1 \<le> i" and ij: "i < j" and j: "j + 1 < length p"
    and sym: "\<forall>a \<in> set p. \<forall>b \<in> set p. d ! a ! b = d ! b ! a"
  shows "legs_cost d (reverse_segment p i j) =
     legs_cost d p - (d ! (p ! (i - 1)) ! (p ! i) + d ! (p ! j) ! (p ! (j + 1)))
       + (d ! (p ! (i - 1)) ! (p ! j) + d ! (p ! i) ! (p ! (j + 1)))"
proof -
  define pre where "pre = take i p"
  define seg where "seg = take (j + 1 - i) (drop i p)"
  define post where "post = drop (j + 1) p"
  have p: "p = pre @ seg @ post"
  proof -
    have "drop (j + 1 - i) (drop i p) = drop (j + 1) p" using ij by simp
    moreover have "p = take i p @ take (j + 1 - i) (drop i p) @ drop (j + 1 - i) (drop i p)"
      by (simp only: append_take_drop_id)
    ultimately show ?thesis unfolding pre_def seg_def post_def by simp
  qed
  have ne: "pre \<noteq> []" "seg \<noteq> []" "post \<noteq> []"
    using i ij j unfolding pre_def seg_def post_def by auto
  have lp: "last pre = p ! (i - 1)"
  proof -
    have "length pre = i" using ij j unfolding pre_def by simp
    then have "last pre = pre ! (i - 1)" using ne(1) by (simp add: last_conv_nth)
    also have "\<dots> = p ! (i - 1)" using i unfolding pre_def by simp
    finally show ?thesis .
  qed
  have hs: "hd seg = p ! i"
    using i ij j unfolding seg_def by (simp add: hd_conv_nth)
  have ls: "last seg = p ! j"
  proof -
    have "length seg = j + 1 - i" using ij j unfolding seg_def by simp
    then have "last seg = seg ! (j - i)" using ne(2) ij by (simp add: last_conv_nth)
    also have "\<dots> = p ! j" using ij j unfolding seg_def by simp
    finally show ?thesis .
  qed
  have hp: "hd post = p ! (j + 1)"
    using j unfolding post_def by (simp add: hd_drop_conv_nth)
  have "set seg \<subseteq> set (drop i p)" unfolding seg_def by (rule set_take_subset)
  then have "set seg \<subseteq> set p" using set_drop_subset[of i p] by (rule order_trans)
  then have symseg: "\<forall>a \<in> set seg. \<forall>b \<in> set seg. d ! a ! b = d ! b ! a"
    using sym by blast
  have c1: "legs_cost d p = legs_cost d pre + d ! last pre ! hd seg + legs_cost d seg
      + d ! last seg ! hd post + legs_cost d post"
  proof -
    have "legs_cost d (pre @ seg @ post) =
        legs_cost d pre + d ! last pre ! hd (seg @ post) + legs_cost d (seg @ post)"
      using ne by (intro legs_cost_append) simp_all
    moreover have "legs_cost d (seg @ post) = legs_cost d seg + d ! last seg ! hd post + legs_cost d post"
      using ne by (intro legs_cost_append)
    ultimately show ?thesis using ne p by simp
  qed
  have c2: "legs_cost d (pre @ rev seg @ post) = legs_cost d pre + d ! last pre ! last seg
      + legs_cost d seg + d ! hd seg ! hd post + legs_cost d post"
  proof -
    have "legs_cost d (pre @ rev seg @ post) =
        legs_cost d pre + d ! last pre ! hd (rev seg @ post) + legs_cost d (rev seg @ post)"
      using ne by (intro legs_cost_append) simp_all
    moreover have "legs_cost d (rev seg @ post) =
        legs_cost d (rev seg) + d ! last (rev seg) ! hd post + legs_cost d post"
      using ne by (intro legs_cost_append) simp_all
    moreover have "hd (rev seg @ post) = last seg" using ne by (simp add: hd_rev)
    moreover have "last (rev seg) = hd seg" using ne by (simp add: last_rev)
    ultimately show ?thesis using legs_cost_rev[OF symseg] by simp
  qed
  have "reverse_segment p i j = pre @ rev seg @ post"
    by (simp add: reverse_segment_def pre_def seg_def post_def)
  then show ?thesis using c1 c2 lp hs ls hp by simp
qed

lemma improving_InrD:
  assumes "improving d p i j = Inr b"
  shows "b \<longleftrightarrow> d ! (p ! (i - 1)) ! (p ! j) + d ! (p ! i) ! (p ! (j + 1))
     < d ! (p ! (i - 1)) ! (p ! i) + d ! (p ! j) ! (p ! (j + 1))"
proof -
  obtain a where a: "matrix_get d (p ! (i - 1)) (p ! i) = Inr a"
    using assms by (cases "matrix_get d (p ! (i - 1)) (p ! i)") (simp_all add: improving_def)
  obtain b' where b': "matrix_get d (p ! j) (p ! (j + 1)) = Inr b'"
    using assms a by (cases "matrix_get d (p ! j) (p ! (j + 1))") (simp_all add: improving_def)
  obtain c where c: "matrix_get d (p ! (i - 1)) (p ! j) = Inr c"
    using assms a b' by (cases "matrix_get d (p ! (i - 1)) (p ! j)") (simp_all add: improving_def)
  obtain e where e: "matrix_get d (p ! i) (p ! (j + 1)) = Inr e"
    using assms a b' c by (cases "matrix_get d (p ! i) (p ! (j + 1))") (simp_all add: improving_def)
  have "b = (c + e < a + b')" using assms a b' c e by (simp add: improving_def Let_def)
  then show ?thesis
    using matrix_get_InrD[OF a] matrix_get_InrD[OF b'] matrix_get_InrD[OF c] matrix_get_InrD[OF e]
    by simp
qed

lemma first_improving_improving:
  "first_improving d path pairs = Inr (Some (i, j)) \<Longrightarrow> improving d path i j = Inr True"
proof (induction pairs)
  case Nil
  then show ?case by simp
next
  case (Cons p pairs)
  obtain a b where p: "p = (a, b)" by (cases p)
  show ?case
  proof (cases "improving d path a b")
    case (Inl e)
    then show ?thesis using Cons.prems p by simp
  next
    case (Inr t)
    then show ?thesis using Cons p by (cases t) auto
  qed
qed

lemma two_opt_loop_terminates_symmetric:
  assumes sq: "square N d" and sym: "symmetric_matrix d"
  shows "\<forall>x \<in> set p. x < N \<Longrightarrow> \<exists>y. two_opt_loop d p = Some y"
proof (induction p rule: measure_induct_rule[where
      f = "\<lambda>p. card {q. mset q = mset p \<and> legs_cost d q < legs_cost d p}"])
  case (less p)
  have "\<forall>(i, j) \<in> set (scan_pairs (length p)). 1 \<le> i \<and> i < j \<and> j + 1 < length p"
    using scan_pairs_bounds by blast
  then obtain r where r: "first_improving d p (scan_pairs (length p)) = Inr r"
    using first_improving_total[OF sq less.prems] by blast
  show ?case
  proof (cases r)
    case None
    then have "two_opt_loop d p = Some (Inr p)" using r by (subst two_opt_loop.simps) simp
    then show ?thesis by blast
  next
    case (Some ij)
    obtain i j where ij: "ij = (i, j)" by (cases ij)
    note found = r[unfolded Some ij]
    have b: "1 \<le> i" "i < j" "j + 1 < length p"
      using scan_pairs_bounds[OF first_improving_mem[OF found]] by simp_all
    let ?p' = "reverse_segment p i j"
    have ms: "mset ?p' = mset p" using reverse_segment_mset[of i j p] b by simp
    then have st: "set ?p' = set p" by (rule mset_eq_setD)
    have N: "length d = N" using sq by (simp add: square_def)
    have symp: "\<forall>a \<in> set p. \<forall>b \<in> set p. d ! a ! b = d ! b ! a"
      using sym less.prems N unfolding symmetric_matrix_def by blast
    have "d ! (p ! (i - 1)) ! (p ! j) + d ! (p ! i) ! (p ! (j + 1))
        < d ! (p ! (i - 1)) ! (p ! i) + d ! (p ! j) ! (p ! (j + 1))"
      using improving_InrD[OF first_improving_improving[OF found]] by simp
    then have less_cost: "legs_cost d ?p' < legs_cost d p"
      using reverse_segment_cost[OF b symp] by simp
    let ?A = "{q. mset q = mset ?p' \<and> legs_cost d q < legs_cost d ?p'}"
    let ?B = "{q. mset q = mset p \<and> legs_cost d q < legs_cost d p}"
    have fin: "finite ?B" by (rule finite_subset[OF _ mset_eq_finite[of p]]) blast
    have sub: "?A \<subseteq> ?B" using ms less_cost by auto
    have "?p' \<in> ?B" "?p' \<notin> ?A" using ms less_cost by simp_all
    then have "?A \<subset> ?B" using sub by blast
    then have "card ?A < card ?B" using fin by (rule psubset_card_mono[rotated])
    moreover have "\<forall>x \<in> set ?p'. x < N" using st less.prems by simp
    ultimately obtain y where "two_opt_loop d ?p' = Some y" using less.IH by blast
    moreover have "two_opt_loop d p = two_opt_loop d ?p'"
      using found by (subst two_opt_loop.simps) simp
    ultimately show ?thesis by simp
  qed
qed

lemma two_opt_terminates_symmetric:
  assumes "square (n + 1) d" and "symmetric_matrix d"
  shows "two_opt_terminates d n"
proof -
  have "two_opt tour d \<noteq> None" if m: "mset tour = mset [0..<n]" for tour
  proof -
    have "\<exists>y. two_opt_loop d (tour_path tour) = Some y"
      by (rule two_opt_loop_terminates_symmetric[OF assms tour_path_in_range(1)[OF m]])
    then obtain y where "two_opt_loop d (tour_path tour) = Some y" ..
    then show ?thesis by (cases y) (simp_all add: two_opt_def)
  qed
  then show ?thesis by (simp add: two_opt_terminates_def)
qed

end
